theory Spec2Isabelle
  imports Main "HOL-Library.Sublist"
begin

section \<open>Strings of the host language\<close>

text \<open>
  The extension is TypeScript. A JavaScript string is a sequence of UTF-16 code units; here a
  string is a \<^typ>\<open>string\<close>, and a \<^typ>\<open>char\<close> stands for the code unit of the same number, so
  the model covers the documents whose code units are below 256. \<open>undefined\<close> and \<open>null\<close> are
  \<^term>\<open>None\<close>.
\<close>

abbreviation LF :: char where
  "LF \<equiv> CHR 0x0A"

abbreviation CR :: char where
  "CR \<equiv> CHR 0x0D"

text \<open>
  The white space of \<open>String.prototype.trim\<close> and of the regular expression class \<open>\s\<close> (the
  same set in ECMAScript), below 256: tab, line feed, vertical tab, form feed, carriage
  return, space and the no-break space.
\<close>

definition isWhiteSpace :: "char \<Rightarrow> bool" where
  "isWhiteSpace c = (c \<in> set [CHR 0x09, CHR 0x0A, CHR 0x0B, CHR 0x0C, CHR 0x0D, CHR 0x20, CHR 0xA0])"

text \<open>\<open>s.trim()\<close>: the white space of both ends is removed.\<close>

definition trim :: "string \<Rightarrow> string" where
  "trim s = rev (dropWhile isWhiteSpace (rev (dropWhile isWhiteSpace s)))"

text \<open>
  \<open>s.toLowerCase()\<close>, below 256: the letters A to Z, and the Latin-1 capitals 0xC0 to 0xDE
  without the multiplication sign 0xD7, move up by 32.
\<close>

definition toLowerChar :: "char \<Rightarrow> char" where
  "toLowerChar c =
    (let n = (of_char c :: nat) in
     if (65 \<le> n \<and> n \<le> 90) \<or> (192 \<le> n \<and> n \<le> 222 \<and> n \<noteq> 215) then char_of (n + 32) else c)"

definition toLowerCase :: "string \<Rightarrow> string" where
  "toLowerCase s = map toLowerChar s"

text \<open>\<open>s.startsWith(p)\<close>.\<close>

definition startsWith :: "string \<Rightarrow> string \<Rightarrow> bool" where
  "startsWith s p = (take (length p) s = p)"

text \<open>
  \<open>xs[i]\<close> read out of range is \<open>undefined\<close> in JavaScript; it is not an error.
\<close>

definition at_index :: "'a list \<Rightarrow> nat \<Rightarrow> 'a option" where
  "at_index xs i = (if i < length xs then Some (xs ! i) else None)"

text \<open>The character \<open>c\<close> put in front of the first piece of a split.\<close>

fun cons_first :: "char \<Rightarrow> string list \<Rightarrow> string list" where
  "cons_first c [] = [[c]]"
| "cons_first c (l # ls) = (c # l) # ls"

text \<open>
  \<open>s.split(/\r?\n/)\<close>: the string is cut at every line feed, and a carriage return right
  before the line feed belongs to the separator. The empty string gives one empty line.
\<close>

fun split_lines :: "string \<Rightarrow> string list" where
  "split_lines [] = [[]]"
| "split_lines [c] = (if c = LF then [[], []] else [[c]])"
| "split_lines (c # d # cs) =
    (if c = CR \<and> d = LF then [] # split_lines cs
     else if c = LF then [] # split_lines (d # cs)
     else cons_first c (split_lines (d # cs)))"

text \<open>
  \<open>s.split(/\s+/)\<close>: the string is cut at every maximal run of white space; a run at either
  end leaves an empty piece there, and the empty string gives one empty piece.
\<close>

function splitWhitespace :: "string \<Rightarrow> string list" where
  "splitWhitespace [] = [[]]"
| "splitWhitespace (c # cs) =
    (if isWhiteSpace c then [] # splitWhitespace (dropWhile isWhiteSpace cs)
     else cons_first c (splitWhitespace cs))"
  by pat_completeness auto
termination
  by (relation "measure length") (auto simp: length_dropWhile_le less_Suc_eq_le)

text \<open>\<open>lines.join('\n')\<close>.\<close>

fun join_lines :: "string list \<Rightarrow> string" where
  "join_lines [] = []"
| "join_lines [l] = l"
| "join_lines (l # m # ls) = l @ LF # join_lines (m # ls)"

text \<open>
  \<open>path.basename(p)\<close> of Node.js on a POSIX system: the slashes at the end are dropped, and the
  part after the last remaining slash is the result.
\<close>

definition basename :: "string \<Rightarrow> string" where
  "basename p =
    (let stripped = dropWhile (\<lambda>c. c = CHR ''/'') (rev p)
     in rev (takeWhile (\<lambda>c. c \<noteq> CHR ''/'') stripped))"

section \<open>The data model\<close>

text \<open>The interface \<open>SSHConnection\<close>; an optional field that is absent is \<^term>\<open>None\<close>.\<close>

record SSHConnection =
  name :: string
  host :: string
  user :: string
  port :: "nat option"
  keyFile :: "string option"
  gitName :: "string option"
  gitEmail :: "string option"
  password :: "string option"

text \<open>
  The file \<open>~/.ssh/config\<close>: its content when it exists, \<^term>\<open>None\<close> when it does not. An
  operation takes the file and gives its result with the file as it leaves it.
\<close>

type_synonym configFile = "string option"

section \<open>Recognising the lines\<close>

text \<open>
  The tests the three operations make on a trimmed line:
  \<open>trimmed.toLowerCase().startsWith('host ')\<close>,
  \<open>trimmed.toLowerCase().startsWith('identityfile')\<close>, and the argument
  \<open>trimmed.split(/\s+/)[1]\<close>.
\<close>

definition isHostLine :: "string \<Rightarrow> bool" where
  "isHostLine trimmed = startsWith (toLowerCase trimmed) ''host ''"

definition isIdentityFileLine :: "string \<Rightarrow> bool" where
  "isIdentityFileLine trimmed = startsWith (toLowerCase trimmed) ''identityfile''"

definition secondToken :: "string \<Rightarrow> string option" where
  "secondToken trimmed = at_index (splitWhitespace trimmed) 1"

section \<open>parseGitHubSSHIdentities\<close>

text \<open>A value is truthy in a condition when it is a string that is not empty.\<close>

definition truthy :: "string option \<Rightarrow> bool" where
  "truthy v = (case v of None \<Rightarrow> False | Some s \<Rightarrow> s \<noteq> [])"

text \<open>The record pushed for an identity file found under \<open>github.com\<close>.\<close>

definition discovered :: "string \<Rightarrow> SSHConnection" where
  "discovered identityFile =
    \<lparr>name = basename identityFile, host = ''github.com'', user = ''git'', port = Some 22,
     keyFile = Some identityFile, gitName = None, gitEmail = None, password = None\<rparr>"

text \<open>
  \<open>if (currentHost === 'github.com' && identityFile) connections.push(...)\<close>, as the list
  of the records pushed (one or none).
\<close>

definition pushIdentity :: "string option \<Rightarrow> string option \<Rightarrow> SSHConnection list" where
  "pushIdentity currentHost identityFile =
    (if currentHost = Some ''github.com'' \<and> truthy identityFile then [discovered (the identityFile)]
     else [])"

text \<open>
  The loop over the lines with its three variables, and the push after the loop when the
  lines are used up.
\<close>

fun parse_loop ::
  "string option \<Rightarrow> string option \<Rightarrow> SSHConnection list \<Rightarrow> string list \<Rightarrow> SSHConnection list"
where
  "parse_loop currentHost identityFile connections [] =
    connections @ pushIdentity currentHost identityFile"
| "parse_loop currentHost identityFile connections (line # lines) =
    (let trimmed = trim line in
     if isHostLine trimmed then
       parse_loop (secondToken trimmed) None
         (connections @ pushIdentity currentHost identityFile) lines
     else if isIdentityFileLine trimmed \<and> currentHost = Some ''github.com'' then
       parse_loop currentHost (secondToken trimmed) connections lines
     else parse_loop currentHost identityFile connections lines)"

definition parse_lines :: "string list \<Rightarrow> SSHConnection list" where
  "parse_lines lines = parse_loop None None [] lines"

definition parseGitHubSSHIdentities :: "configFile \<Rightarrow> SSHConnection list \<times> configFile" where
  "parseGitHubSSHIdentities file =
    (case file of
       None \<Rightarrow> ([], file)
     | Some content \<Rightarrow> (parse_lines (split_lines content), file))"

section \<open>isActiveIdentity\<close>

fun isActive_loop :: "string option \<Rightarrow> bool \<Rightarrow> string list \<Rightarrow> bool" where
  "isActive_loop key inGitHubHost [] = False"
| "isActive_loop key inGitHubHost (line # lines) =
    (let trimmed = trim line;
         inGitHubHost' =
           (if isHostLine trimmed then secondToken trimmed = Some ''github.com''
            else inGitHubHost)
     in if inGitHubHost' \<and> isIdentityFileLine trimmed then secondToken trimmed = key
        else isActive_loop key inGitHubHost' lines)"

definition isActiveIdentity :: "SSHConnection \<Rightarrow> configFile \<Rightarrow> bool \<times> configFile" where
  "isActiveIdentity connection file =
    (case file of
       None \<Rightarrow> (False, file)
     | Some content \<Rightarrow> (isActive_loop (keyFile connection) False (split_lines content), file))"

section \<open>setActiveGitHubIdentity\<close>

text \<open>The line written for the identity file: four spaces, the keyword, the path.\<close>

definition identityLine :: "string \<Rightarrow> string" where
  "identityLine identityFile = ''    IdentityFile '' @ identityFile"

text \<open>
  The loop that rewrites the first matching line and stops there (\<open>break\<close>); it gives the
  lines and the flag \<open>found\<close>.
\<close>

fun rewrite_loop :: "string \<Rightarrow> bool \<Rightarrow> string list \<Rightarrow> string list \<times> bool" where
  "rewrite_loop identityFile inGitHubHost [] = ([], False)"
| "rewrite_loop identityFile inGitHubHost (line # lines) =
    (let trimmed = trim line;
         inGitHubHost' =
           (if isHostLine trimmed then secondToken trimmed = Some ''github.com''
            else inGitHubHost)
     in if inGitHubHost' \<and> isIdentityFileLine trimmed then
          (identityLine identityFile # lines, True)
        else
          (let (lines', found) = rewrite_loop identityFile inGitHubHost' lines
           in (line # lines', found)))"

definition setActive_lines :: "string \<Rightarrow> string list \<Rightarrow> string list" where
  "setActive_lines identityFile lines =
    (let (lines', found) = rewrite_loop identityFile False lines
     in if \<not> found then lines' @ [''Host github.com'', identityLine identityFile]
        else lines')"

definition setActiveGitHubIdentity :: "string \<Rightarrow> configFile \<Rightarrow> configFile" where
  "setActiveGitHubIdentity identityFile file =
    (case file of
       None \<Rightarrow> None
     | Some content \<Rightarrow> Some (join_lines (setActive_lines identityFile (split_lines content))))"

section \<open>The merged view: getChildren\<close>

text \<open>
  \<open>for (const c of configIdentities) if (!all.find(e => e.keyFile === c.keyFile)) all.push(c)\<close>.
\<close>

fun merge_loop :: "SSHConnection list \<Rightarrow> SSHConnection list \<Rightarrow> SSHConnection list" where
  "merge_loop all [] = all"
| "merge_loop all (c # cs) =
    (if find (\<lambda>e. keyFile e = keyFile c) all = None then merge_loop (all @ [c]) cs
     else merge_loop all cs)"

text \<open>
  \<open>getChildren(element)\<close> of the provider whose managed list is \<open>connections\<close>: the merged
  view for the root, nothing below an element.
\<close>

definition getChildren ::
  "SSHConnection option \<Rightarrow> SSHConnection list \<Rightarrow> configFile \<Rightarrow> SSHConnection list"
where
  "getChildren element connections file =
    (case element of
       None \<Rightarrow> merge_loop connections (fst (parseGitHubSSHIdentities file))
     | Some e \<Rightarrow> [])"

section \<open>The structure of a configuration document\<close>

text \<open>
  The vocabulary of the properties below, on the lines of a document as they are read (not
  trimmed): a line that opens a host block, a line that carries the \<open>IdentityFile\<close> keyword,
  the argument of a line, and a line that opens a block for \<open>github.com\<close>.
\<close>

definition startsHost :: "string \<Rightarrow> bool" where
  "startsHost line = isHostLine (trim line)"

definition startsIdentityFile :: "string \<Rightarrow> bool" where
  "startsIdentityFile line = isIdentityFileLine (trim line)"

definition argument :: "string \<Rightarrow> string option" where
  "argument line = secondToken (trim line)"

definition githubHost :: "string \<Rightarrow> bool" where
  "githubHost line = (startsHost line \<and> argument line = Some ''github.com'')"

text \<open>
  The host block of line \<open>i\<close> is the one opened by the last \<open>Host\<close> line at or before \<open>i\<close>;
  \<open>hostAt lines i\<close> is the pattern of that line, \<^term>\<open>None\<close> before the first \<open>Host\<close> line.
\<close>

definition hostAt :: "string list \<Rightarrow> nat \<Rightarrow> string option" where
  "hostAt lines i =
    (case filter startsHost (rev (take (Suc i) lines)) of
       [] \<Rightarrow> None
     | h # hs \<Rightarrow> argument h)"

text \<open>Line \<open>i\<close> carries the \<open>IdentityFile\<close> keyword inside a block for \<open>github.com\<close>.\<close>

definition githubIdentityAt :: "string list \<Rightarrow> nat \<Rightarrow> bool" where
  "githubIdentityAt lines i =
    (i < length lines \<and> startsIdentityFile (lines ! i) \<and> hostAt lines i = Some ''github.com'')"

text \<open>The first such line of the document, by its index.\<close>

definition targetIndex :: "string list \<Rightarrow> nat option" where
  "targetIndex lines =
    (case filter (githubIdentityAt lines) [0..<length lines] of
       [] \<Rightarrow> None
     | i # is \<Rightarrow> Some i)"

text \<open>
  The lines of the first block for \<open>github.com\<close>, without the \<open>Host\<close> line that opens it:
  they run to the next \<open>Host\<close> line or to the end of the document.
\<close>

definition firstGitHubBlock :: "string list \<Rightarrow> string list option" where
  "firstGitHubBlock lines =
    (case dropWhile (\<lambda>l. \<not> githubHost l) lines of
       [] \<Rightarrow> None
     | h # rest \<Rightarrow> Some (takeWhile (\<lambda>l. \<not> startsHost l) rest))"

text \<open>
  The flag \<open>inGitHubHost\<close> after the loop of \<open>isActiveIdentity\<close> or of
  \<open>setActiveGitHubIdentity\<close> has read the lines, and the index at which that loop stops.
\<close>

definition inGitHubHostAfter :: "bool \<Rightarrow> string list \<Rightarrow> bool" where
  "inGitHubHostAfter b lines =
    foldl (\<lambda>flag l. if startsHost l then argument l = Some ''github.com'' else flag) b lines"

fun findTarget :: "bool \<Rightarrow> string list \<Rightarrow> nat option" where
  "findTarget b [] = None"
| "findTarget b (l # ls) =
    (let b' = (if startsHost l then argument l = Some ''github.com'' else b)
     in if b' \<and> startsIdentityFile l then Some 0 else map_option Suc (findTarget b' ls))"

text \<open>
  The value of \<open>identityFile\<close> after the loop of \<open>parseGitHubSSHIdentities\<close> has read the
  lines of a block for \<open>github.com\<close>: the argument of the last line with the keyword, or the
  value before the block when no line has it.
\<close>

definition identityAfter :: "string option \<Rightarrow> string list \<Rightarrow> string option" where
  "identityAfter identityFile body =
    (case filter startsIdentityFile (rev body) of
       [] \<Rightarrow> identityFile
     | l # ls \<Rightarrow> argument l)"

text \<open>A line that ends with a carriage return.\<close>

definition endsWithCR :: "string \<Rightarrow> bool" where
  "endsWithCR l = (l \<noteq> [] \<and> last l = CR)"

text \<open>
  What is read back of a line that was written in front of a line feed: a carriage return at
  its end is taken for a part of the separator.
\<close>

definition chomp :: "string \<Rightarrow> string" where
  "chomp l = (if endsWithCR l then butlast l else l)"

section \<open>Lemmas on the loops\<close>

lemma host_not_identity: "isHostLine t \<Longrightarrow> \<not> isIdentityFileLine t"
  by (cases "toLowerCase t") (auto simp: isHostLine_def isIdentityFileLine_def startsWith_def)

lemma startsHost_not_identity: "startsHost l \<Longrightarrow> \<not> startsIdentityFile l"
  by (simp add: startsHost_def startsIdentityFile_def host_not_identity)

lemma inGitHubHostAfter_Nil [simp]: "inGitHubHostAfter b [] = b"
  by (simp add: inGitHubHostAfter_def)

lemma inGitHubHostAfter_Cons:
  "inGitHubHostAfter b (l # ls) =
     inGitHubHostAfter (if startsHost l then argument l = Some ''github.com'' else b) ls"
  by (simp add: inGitHubHostAfter_def)

lemma inGitHubHostAfter_snoc:
  "inGitHubHostAfter b (ls @ [l]) =
     (if startsHost l then argument l = Some ''github.com'' else inGitHubHostAfter b ls)"
  by (simp add: inGitHubHostAfter_def)

lemma inGitHubHostAfter_filter:
  "inGitHubHostAfter b ls =
     (case filter startsHost (rev ls) of [] \<Rightarrow> b | h # hs \<Rightarrow> argument h = Some ''github.com'')"
  by (induction ls rule: rev_induct) (simp_all add: inGitHubHostAfter_snoc)

lemma hostAt_flag:
  "(hostAt ls i = Some ''github.com'') = inGitHubHostAfter False (take (Suc i) ls)"
  by (simp add: hostAt_def inGitHubHostAfter_filter split: list.splits)

lemma findTarget_snoc:
  "findTarget b (ls @ [l]) =
     (case findTarget b ls of
        Some i \<Rightarrow> Some i
      | None \<Rightarrow> if inGitHubHostAfter b (ls @ [l]) \<and> startsIdentityFile l then Some (length ls) else None)"
proof (induction ls arbitrary: b)
  case Nil
  show ?case by (simp add: Let_def inGitHubHostAfter_Cons)
next
  case (Cons a ls)
  show ?case
    by (auto simp: Let_def Cons.IH inGitHubHostAfter_Cons startsHost_not_identity split: option.splits)
qed

lemma githubIdentityAt_snoc:
  "i < length ls \<Longrightarrow> githubIdentityAt (ls @ [l]) i = githubIdentityAt ls i"
  by (simp add: githubIdentityAt_def hostAt_def nth_append)

lemma githubIdentityAt_last:
  "githubIdentityAt (ls @ [l]) (length ls) =
     (startsIdentityFile l \<and> inGitHubHostAfter False (ls @ [l]))"
  by (simp add: githubIdentityAt_def hostAt_flag)

lemma filter_githubIdentityAt_snoc:
  "filter (githubIdentityAt (ls @ [l])) [0..<length ls] = filter (githubIdentityAt ls) [0..<length ls]"
  by (rule filter_cong) (simp_all add: githubIdentityAt_snoc)

lemma targetIndex_snoc:
  "targetIndex (ls @ [l]) =
     (case targetIndex ls of
        Some i \<Rightarrow> Some i
      | None \<Rightarrow> if inGitHubHostAfter False (ls @ [l]) \<and> startsIdentityFile l then Some (length ls) else None)"
  by (auto simp: targetIndex_def filter_githubIdentityAt_snoc githubIdentityAt_last split: list.splits)

lemma findTarget_targetIndex: "findTarget False ls = targetIndex ls"
proof (induction ls rule: rev_induct)
  case Nil
  show ?case by (simp add: targetIndex_def)
next
  case (snoc l ls)
  then show ?case by (simp add: findTarget_snoc targetIndex_snoc)
qed

lemma findTarget_less: "findTarget b ls = Some i \<Longrightarrow> i < length ls"
  by (induction ls arbitrary: b i) (auto simp: Let_def split: if_splits)

lemma rewrite_loop_findTarget:
  "rewrite_loop k b ls =
     (case findTarget b ls of
        None \<Rightarrow> (ls, False)
      | Some i \<Rightarrow> (ls[i := identityLine k], True))"
  by (induction ls arbitrary: b)
     (auto simp: Let_def startsHost_def startsIdentityFile_def argument_def split: option.splits)

lemma isActive_loop_findTarget:
  "isActive_loop key b ls =
     (case findTarget b ls of
        None \<Rightarrow> False
      | Some i \<Rightarrow> argument (ls ! i) = key)"
  by (induction ls arbitrary: b)
     (auto simp: Let_def startsHost_def startsIdentityFile_def argument_def split: option.splits)

lemma setActive_lines_targetIndex:
  "setActive_lines k ls =
     (case targetIndex ls of
        None \<Rightarrow> ls @ [''Host github.com'', identityLine k]
      | Some i \<Rightarrow> ls[i := identityLine k])"
  by (simp add: setActive_lines_def rewrite_loop_findTarget findTarget_targetIndex split: option.splits)

lemma parse_loop_acc:
  "parse_loop ch idf conns ls = conns @ parse_loop ch idf [] ls"
proof (induction ls arbitrary: ch idf conns)
  case Nil
  show ?case by simp
next
  case (Cons l ls)
  show ?case
    using Cons.IH [of "secondToken (trim l)" None "conns @ pushIdentity ch idf"]
      Cons.IH [of "secondToken (trim l)" None "pushIdentity ch idf"]
      Cons.IH [of ch "secondToken (trim l)" conns] Cons.IH [of ch idf conns]
    by (auto simp: Let_def)
qed

lemma parse_loop_no_host:
  assumes "\<forall>l\<in>set pre. \<not> startsHost l" and "ch \<noteq> Some ''github.com''"
  shows "parse_loop ch idf conns (pre @ rest) = parse_loop ch idf conns rest"
  using assms by (induction pre) (simp_all add: Let_def startsHost_def)

lemma isActive_loop_no_host:
  assumes "\<forall>l\<in>set pre. \<not> startsHost l"
  shows "isActive_loop key False (pre @ rest) = isActive_loop key False rest"
  using assms by (induction pre) (simp_all add: Let_def startsHost_def)

lemma rewrite_loop_no_host:
  assumes "\<forall>l\<in>set pre. \<not> startsHost l"
  shows "rewrite_loop k False (pre @ rest) =
    (pre @ fst (rewrite_loop k False rest), snd (rewrite_loop k False rest))"
  using assms by (induction pre) (simp_all add: Let_def startsHost_def split: prod.splits)

lemma setActive_lines_no_host:
  assumes "\<forall>l\<in>set pre. \<not> startsHost l"
  shows "setActive_lines k (pre @ rest) = pre @ setActive_lines k rest"
  using rewrite_loop_no_host [OF assms, of k rest]
  by (simp add: setActive_lines_def split: prod.splits)

lemma parse_loop_body:
  assumes "\<forall>l\<in>set body. \<not> startsHost l"
  shows "parse_loop (Some ''github.com'') idf conns (body @ post) =
    parse_loop (Some ''github.com'') (identityAfter idf body) conns post"
  using assms
proof (induction body arbitrary: idf)
  case Nil
  show ?case by (simp add: identityAfter_def)
next
  case (Cons l body)
  have ia: "identityAfter idf (l # body) =
      identityAfter (if startsIdentityFile l then argument l else idf) body"
    by (simp add: identityAfter_def split: list.splits)
  from Cons show ?case
    by (simp add: Let_def ia) (simp add: startsHost_def startsIdentityFile_def argument_def)
qed

lemma parse_loop_boundary:
  assumes "post = [] \<or> startsHost (hd post)"
  shows "parse_loop ch idf conns post = conns @ pushIdentity ch idf @ parse_lines post"
proof (cases post)
  case Nil
  then show ?thesis by (simp add: parse_lines_def pushIdentity_def truthy_def)
next
  case (Cons l ls)
  with assms have h: "isHostLine (trim l)" by (simp add: startsHost_def)
  show ?thesis
    using parse_loop_acc [of "secondToken (trim l)" None "conns @ pushIdentity ch idf" ls]
    by (simp add: Cons parse_lines_def h Let_def pushIdentity_def truthy_def)
qed

lemma parse_loop_prefix:
  assumes "startsHost hl"
  shows "parse_loop ch idf conns (pre @ hl # rest) =
    parse_loop ch idf conns pre @ parse_loop (argument hl) None [] rest"
proof (induction pre arbitrary: ch idf conns)
  case Nil
  from assms show ?case
    using parse_loop_acc [of "secondToken (trim hl)" None "conns @ pushIdentity ch idf" rest]
    by (simp add: Let_def startsHost_def argument_def)
next
  case (Cons l pre)
  show ?case by (simp add: Let_def Cons.IH)
qed

lemma targetIndex_Some:
  assumes "targetIndex ls = Some i"
  shows "githubIdentityAt ls i"
proof -
  from assms obtain r where "filter (githubIdentityAt ls) [0..<length ls] = i # r"
    by (auto simp: targetIndex_def split: list.splits)
  then have "i \<in> set (filter (githubIdentityAt ls) [0..<length ls])"
    by simp
  then show ?thesis by simp
qed

section \<open>Lemmas on the arguments and on the blocks of the scan\<close>

lemma cons_first_not_Nil: "cons_first c ps \<noteq> []"
  by (cases ps) simp_all

lemma splitWhitespace_not_Nil: "splitWhitespace s \<noteq> []"
  by (cases s) (simp_all add: cons_first_not_Nil)

lemma cons_first_pieces:
  "ps \<noteq> [] \<Longrightarrow> hd (cons_first c ps) \<noteq> [] \<and> tl (cons_first c ps) = tl ps"
  by (cases ps) simp_all

lemma splitWhitespace_pieces:
  "s \<noteq> [] \<Longrightarrow> \<not> isWhiteSpace (last s) \<Longrightarrow>
     (\<forall>p \<in> set (tl (splitWhitespace s)). p \<noteq> []) \<and>
     (\<not> isWhiteSpace (hd s) \<longrightarrow> hd (splitWhitespace s) \<noteq> [])"
proof (induction s rule: splitWhitespace.induct)
  case 1
  then show ?case by simp
next
  case (2 c cs)
  show ?case
  proof (cases "isWhiteSpace c")
    case True
    let ?d = "dropWhile isWhiteSpace cs"
    from True "2.prems" have cs: "cs \<noteq> []" "\<not> isWhiteSpace (last cs)"
      by (auto split: if_splits)
    then have "\<exists>x \<in> set cs. \<not> isWhiteSpace x"
      using last_in_set [of cs] by blast
    then have d: "?d \<noteq> []" by (simp add: dropWhile_eq_Nil_conv)
    have l: "last ?d = last cs"
      using d by (metis last_appendR takeWhile_dropWhile_id)
    have h: "\<not> isWhiteSpace (hd ?d)" using d by (simp add: hd_dropWhile)
    from "2.IH"(1) [OF True d] l cs(2) h
    have "(\<forall>p \<in> set (tl (splitWhitespace ?d)). p \<noteq> []) \<and> hd (splitWhitespace ?d) \<noteq> []"
      by simp
    then have "\<forall>p \<in> set (splitWhitespace ?d). p \<noteq> []"
      using splitWhitespace_not_Nil [of ?d] by (cases "splitWhitespace ?d") auto
    with True show ?thesis by simp
  next
    case False
    show ?thesis
    proof (cases "cs = []")
      case True
      with False show ?thesis by simp
    next
      case ne: False
      with "2.prems" have "\<not> isWhiteSpace (last cs)" by simp
      from "2.IH"(2) [OF False ne this]
      have "\<forall>p \<in> set (tl (splitWhitespace cs)). p \<noteq> []" by simp
      with False cons_first_pieces [OF splitWhitespace_not_Nil, of c cs]
      show ?thesis by simp
    qed
  qed
qed

lemma trim_last: "trim l \<noteq> [] \<Longrightarrow> \<not> isWhiteSpace (last (trim l))"
  unfolding trim_def by (simp add: last_rev hd_dropWhile)

lemma argument_nonempty:
  assumes "argument l = Some k"
  shows "k \<noteq> []"
proof -
  let ?ps = "splitWhitespace (trim l)"
  from assms have k: "1 < length ?ps" "k = ?ps ! 1"
    by (auto simp: argument_def secondToken_def at_index_def split: if_splits)
  then have t: "trim l \<noteq> []" by auto
  from k have "k \<in> set (tl ?ps)"
    by (cases ?ps) (auto simp: nth_Cons')
  with splitWhitespace_pieces [OF t trim_last [OF t]] show ?thesis by blast
qed

lemma parse_block:
  assumes hl: "githubHost hl" and body: "\<forall>l\<in>set body. \<not> startsHost l"
    and post: "post = [] \<or> startsHost (hd post)"
  shows "parse_lines (pre @ hl # body @ post) =
     parse_lines pre @ pushIdentity (Some ''github.com'') (identityAfter None body) @ parse_lines post"
proof -
  from hl have h: "startsHost hl" "argument hl = Some ''github.com''"
    by (simp_all add: githubHost_def)
  have "parse_lines (pre @ hl # body @ post) =
      parse_lines pre @ parse_loop (Some ''github.com'') None [] (body @ post)"
    using parse_loop_prefix [OF h(1), of None None "[]" pre "body @ post"] h(2)
    by (simp add: parse_lines_def)
  also have "parse_loop (Some ''github.com'') None [] (body @ post) =
      parse_loop (Some ''github.com'') (identityAfter None body) [] post"
    using body by (rule parse_loop_body)
  also have "\<dots> = [] @ pushIdentity (Some ''github.com'') (identityAfter None body) @ parse_lines post"
    using post by (rule parse_loop_boundary)
  finally show ?thesis by simp
qed

lemma identityAfter_last:
  "filter startsIdentityFile body \<noteq> [] \<Longrightarrow>
     identityAfter idf body = argument (last (filter startsIdentityFile body))"
  by (simp add: identityAfter_def rev_filter [symmetric] last_rev [symmetric] hd_rev
      split: list.splits)

lemma pushIdentity_argument:
  "pushIdentity (Some ''github.com'') (argument l) =
     (case argument l of None \<Rightarrow> [] | Some k \<Rightarrow> [discovered k])"
  by (auto simp: pushIdentity_def truthy_def argument_nonempty split: option.splits)

section \<open>Lemmas on writing a document and reading it back\<close>

lemma split_lines_no_LF: "LF \<notin> set s \<Longrightarrow> split_lines s = [s]"
  by (induction s rule: split_lines.induct) auto

lemma chomp_Cons2: "chomp (c # d # l) = c # chomp (d # l)"
  by (simp add: chomp_def endsWithCR_def)

lemma split_lines_LF: "split_lines (LF # rest) = [] # split_lines rest"
  by (cases rest) simp_all

lemma split_lines_append_LF:
  "LF \<notin> set l \<Longrightarrow> split_lines (l @ LF # rest) = chomp l # split_lines rest"
proof (induction l rule: split_lines.induct)
  case 1
  show ?case by (cases rest) (simp_all add: chomp_def endsWithCR_def)
next
  case (2 c)
  then show ?case by (simp add: chomp_def endsWithCR_def split_lines_LF)
next
  case (3 c d cs)
  then show ?case by (auto simp: chomp_Cons2)
qed

lemma split_lines_not_Nil: "split_lines s \<noteq> []"
  by (induction s rule: split_lines.induct) (auto simp: cons_first_not_Nil)

lemma set_cons_first:
  "ps \<noteq> [] \<Longrightarrow> set (cons_first c ps) = insert (c # hd ps) (set (tl ps))"
  by (cases ps) simp_all

lemma split_lines_no_LF_in_lines: "l \<in> set (split_lines s) \<Longrightarrow> LF \<notin> set l"
proof (induction s arbitrary: l rule: split_lines.induct)
  case 1
  then show ?case by simp
next
  case (2 c)
  then show ?case by (auto split: if_splits)
next
  case (3 c d cs)
  show ?case
  proof (cases "c = CR \<and> d = LF")
    case True
    with 3 show ?thesis by auto
  next
    case False
    note nf = this
    show ?thesis
    proof (cases "c = LF")
      case True
      with 3 nf show ?thesis by auto
    next
      case False
      let ?ps = "split_lines (d # cs)"
      have ne: "?ps \<noteq> []" by (rule split_lines_not_Nil)
      from "3.prems" nf False have "l \<in> insert (c # hd ?ps) (set (tl ?ps))"
        by (simp add: set_cons_first [OF ne])
      moreover have "\<And>x. x \<in> set ?ps \<Longrightarrow> LF \<notin> set x"
        using "3.IH"(3) nf False by blast
      moreover have "hd ?ps \<in> set ?ps" using ne by simp
      moreover have "set (tl ?ps) \<subseteq> set ?ps" using ne by (cases ?ps) auto
      ultimately show ?thesis using False by auto
    qed
  qed
qed

lemma split_join:
  "ls \<noteq> [] \<Longrightarrow> \<forall>l\<in>set ls. LF \<notin> set l \<Longrightarrow>
     split_lines (join_lines ls) = map chomp (butlast ls) @ [last ls]"
  by (induction ls rule: join_lines.induct) (simp_all add: split_lines_no_LF split_lines_append_LF)

lemma trim_snoc_ws:
  assumes "isWhiteSpace c"
  shows "trim (x @ [c]) = trim x"
proof (cases "\<forall>y\<in>set x. isWhiteSpace y")
  case True
  then have e1: "dropWhile isWhiteSpace x = []" by (simp add: dropWhile_eq_Nil_conv)
  from True assms have e2: "dropWhile isWhiteSpace (x @ [c]) = []"
    by (simp add: dropWhile_eq_Nil_conv)
  show ?thesis unfolding trim_def e1 e2 by (rule refl)
next
  case False
  then obtain y where "y \<in> set x" "\<not> isWhiteSpace y" by blast
  then have "dropWhile isWhiteSpace (x @ [c]) = dropWhile isWhiteSpace x @ [c]"
    by (rule dropWhile_append1)
  with assms show ?thesis by (simp add: trim_def)
qed

lemma trim_chomp: "trim (chomp l) = trim l"
proof (cases "endsWithCR l")
  case True
  then have "l = butlast l @ [CR]"
    using append_butlast_last_id [of l] by (simp add: endsWithCR_def)
  moreover have "isWhiteSpace CR" by (simp add: isWhiteSpace_def)
  ultimately have "trim l = trim (butlast l)" using trim_snoc_ws [of CR "butlast l"] by metis
  with True show ?thesis by (simp add: chomp_def)
next
  case False
  then show ?thesis by (simp add: chomp_def)
qed

lemma findTarget_cong:
  "map trim ls' = map trim ls \<Longrightarrow> findTarget b ls' = findTarget b ls"
proof (induction ls arbitrary: ls' b)
  case Nil
  then show ?case by simp
next
  case (Cons l ls)
  then obtain l' ms where ls': "ls' = l' # ms" "trim l' = trim l" "map trim ms = map trim ls"
    by (cases ls') auto
  with Cons.IH [of ms] show ?case
    by (simp add: startsHost_def startsIdentityFile_def argument_def Let_def)
qed

lemma rtrim_keep:
  assumes "a \<noteq> []" "\<not> P (last a)"
  shows "rev (dropWhile P (rev (a @ b))) = a @ rev (dropWhile P (rev b))"
proof -
  have h: "dropWhile P (rev a) = rev a"
    using assms by (cases "rev a") (auto simp: last_rev [symmetric] hd_rev)
  show ?thesis
  proof (cases "\<forall>x\<in>set (rev b). P x")
    case True
    then have "dropWhile P (rev b) = []" by (simp add: dropWhile_eq_Nil_conv)
    moreover from True have "dropWhile P (rev b @ rev a) = dropWhile P (rev a)"
      by (simp add: dropWhile_append)
    ultimately show ?thesis using h by simp
  next
    case False
    then obtain y where "y \<in> set (rev b)" "\<not> P y" by blast
    then have "dropWhile P (rev b @ rev a) = dropWhile P (rev b) @ rev a"
      by (rule dropWhile_append1)
    then show ?thesis by simp
  qed
qed

lemma trim_identityLine:
  "trim (identityLine k) = ''IdentityFile'' @ rev (dropWhile isWhiteSpace (rev (CHR '' '' # k)))"
proof -
  have "dropWhile isWhiteSpace (identityLine k) = ''IdentityFile'' @ (CHR '' '' # k)"
    by (simp add: identityLine_def isWhiteSpace_def)
  moreover have "\<not> isWhiteSpace (last ''IdentityFile'')" by (simp add: isWhiteSpace_def)
  ultimately show ?thesis
    using rtrim_keep [of "''IdentityFile''" isWhiteSpace "CHR '' '' # k"]
    by (simp add: trim_def)
qed

lemma toLowerCase_keyword: "toLowerCase ''IdentityFile'' = ''identityfile''"
  by code_simp

lemma startsIdentityFile_identityLine: "startsIdentityFile (identityLine k)"
proof -
  have "toLowerCase (''IdentityFile'' @ r) = ''identityfile'' @ toLowerCase r" for r
    using toLowerCase_keyword by (simp add: toLowerCase_def)
  then show ?thesis
    by (simp add: startsIdentityFile_def trim_identityLine isIdentityFileLine_def startsWith_def)
qed

lemma not_startsHost_identityLine: "\<not> startsHost (identityLine k)"
  using startsHost_not_identity [of "identityLine k"] startsIdentityFile_identityLine by blast

lemma hostLine_facts:
  "startsHost ''Host github.com''" "argument ''Host github.com'' = Some ''github.com''"
  "\<not> startsIdentityFile ''Host github.com''" "\<not> endsWithCR ''Host github.com''"
  "LF \<notin> set ''Host github.com''"
  by (code_simp, code_simp, code_simp, code_simp, simp)

lemma findTarget_update:
  "findTarget b ls = Some i \<Longrightarrow> findTarget b (ls[i := identityLine k]) = Some i"
proof (induction ls arbitrary: b i)
  case Nil
  then show ?case by simp
next
  case (Cons l ls)
  show ?case
  proof (cases i)
    case 0
    with Cons.prems have "(if startsHost l then argument l = Some ''github.com'' else b)"
      "startsIdentityFile l"
      by (auto simp: Let_def split: if_splits)
    moreover then have "\<not> startsHost l" using startsHost_not_identity by blast
    ultimately show ?thesis
      using 0 by (simp add: not_startsHost_identityLine startsIdentityFile_identityLine)
  next
    case (Suc j)
    with Cons.prems Cons.IH [of _ j] show ?thesis
      by (auto simp: Let_def split: if_splits)
  qed
qed

lemma findTarget_append_block:
  assumes "findTarget b ls = None"
  shows "findTarget b (ls @ [''Host github.com'', identityLine k]) = Some (Suc (length ls))"
proof -
  have "findTarget b (ls @ [''Host github.com'']) = None"
    using assms by (simp add: findTarget_snoc hostLine_facts)
  moreover have "inGitHubHostAfter b ((ls @ [''Host github.com'']) @ [identityLine k])"
    by (simp only: inGitHubHostAfter_snoc not_startsHost_identityLine hostLine_facts if_True if_False)
  ultimately have "findTarget b ((ls @ [''Host github.com'']) @ [identityLine k]) =
      Some (length (ls @ [''Host github.com'']))"
    by (simp only: findTarget_snoc startsIdentityFile_identityLine option.case simp_thms if_True)
  then show ?thesis by simp
qed

lemma reread_update:
  assumes i: "i < length ls" and cr: "\<forall>j < length ls. j \<noteq> i \<longrightarrow> \<not> endsWithCR (ls ! j)"
  shows "(map chomp (butlast ls) @ [last ls])[i := ls ! i] = ls"
proof -
  from i obtain ys y where ls: "ls = ys @ [y]" by (cases ls rule: rev_cases) auto
  have "(map chomp ys @ [y])[i := (ys @ [y]) ! i] = ys @ [y]"
  proof (rule nth_equalityI)
    show "length ((map chomp ys @ [y])[i := (ys @ [y]) ! i]) = length (ys @ [y])" by simp
  next
    fix j assume "j < length ((map chomp ys @ [y])[i := (ys @ [y]) ! i])"
    then have j: "j < Suc (length ys)" by simp
    show "(map chomp ys @ [y])[i := (ys @ [y]) ! i] ! j = (ys @ [y]) ! j"
    proof (cases "j = i")
      case True
      with j show ?thesis by simp
    next
      case False
      show ?thesis
      proof (cases "j < length ys")
        case True
        with cr [rule_format, of j] ls False have "\<not> endsWithCR (ys ! j)"
          by (simp add: nth_append)
        then have "chomp (ys ! j) = ys ! j" by (simp add: chomp_def)
        with True False show ?thesis by (simp add: nth_append)
      next
        case nl: False
        with j have "j = length ys" by simp
        with False show ?thesis by (simp add: nth_append)
      qed
    qed
  qed
  with ls show ?thesis by simp
qed

lemma setActive_lines_reread:
  assumes f: "findTarget False ls = Some i" and n: "ls ! i = identityLine k"
    and cr: "\<forall>j < length ls. j \<noteq> i \<longrightarrow> \<not> endsWithCR (ls ! j)"
    and lf: "\<forall>l\<in>set ls. LF \<notin> set l"
  shows "setActive_lines k (split_lines (join_lines ls)) = ls"
proof -
  from f have i: "i < length ls" by (rule findTarget_less)
  then have ne: "ls \<noteq> []" by auto
  let ?r = "map chomp (butlast ls) @ [last ls]"
  have r: "split_lines (join_lines ls) = ?r" using ne lf by (rule split_join)
  have "map trim ?r = map trim (butlast ls @ [last ls])" by (simp add: trim_chomp)
  then have "map trim ?r = map trim ls" using ne by simp
  then have "findTarget False ?r = findTarget False ls" by (rule findTarget_cong)
  with f have "findTarget False ?r = Some i" by simp
  then have "setActive_lines k ?r = ?r[i := identityLine k]"
    by (simp add: setActive_lines_def rewrite_loop_findTarget)
  also have "\<dots> = ls" using reread_update [OF i cr] n by simp
  finally show ?thesis using r by simp
qed

lemma setActive_lines_stable:
  assumes k: "LF \<notin> set k" and cr: "\<forall>l\<in>set ls. \<not> endsWithCR l" and lf: "\<forall>l\<in>set ls. LF \<notin> set l"
  shows "setActive_lines k (split_lines (join_lines (setActive_lines k ls))) = setActive_lines k ls"
proof (cases "findTarget False ls")
  case None
  let ?ls1 = "ls @ [''Host github.com'', identityLine k]"
  have s: "setActive_lines k ls = ?ls1"
    using None by (simp add: setActive_lines_def rewrite_loop_findTarget)
  have f: "findTarget False ?ls1 = Some (Suc (length ls))"
    using None by (rule findTarget_append_block)
  have n: "?ls1 ! Suc (length ls) = identityLine k" by (simp add: nth_append)
  have c: "\<forall>j < length ?ls1. j \<noteq> Suc (length ls) \<longrightarrow> \<not> endsWithCR (?ls1 ! j)"
  proof (intro allI impI)
    fix j assume "j < length ?ls1" "j \<noteq> Suc (length ls)"
    then have "j < length ls \<or> j = length ls" by auto
    then show "\<not> endsWithCR (?ls1 ! j)"
      using cr hostLine_facts(4) by (auto simp: nth_append)
  qed
  have l: "\<forall>l\<in>set ?ls1. LF \<notin> set l"
    using lf k hostLine_facts(5) by (auto simp: identityLine_def)
  from setActive_lines_reread [OF f n c l] s show ?thesis by simp
next
  case (Some i)
  then have i: "i < length ls" by (rule findTarget_less)
  let ?ls1 = "ls[i := identityLine k]"
  have s: "setActive_lines k ls = ?ls1"
    using Some by (simp add: setActive_lines_def rewrite_loop_findTarget)
  have f: "findTarget False ?ls1 = Some i" using Some by (rule findTarget_update)
  have n: "?ls1 ! i = identityLine k" using i by simp
  have c: "\<forall>j < length ?ls1. j \<noteq> i \<longrightarrow> \<not> endsWithCR (?ls1 ! j)"
    using cr by simp
  have l: "\<forall>l\<in>set ?ls1. LF \<notin> set l"
  proof
    fix x assume "x \<in> set ?ls1"
    then have "x \<in> insert (identityLine k) (set ls)"
      using set_update_subset_insert [of ls i "identityLine k"] by blast
    then show "LF \<notin> set x" using lf k by (auto simp: identityLine_def)
  qed
  from setActive_lines_reread [OF f n c l] s show ?thesis by simp
qed

section \<open>Lemmas on the merge\<close>

lemma image_diff_skip:
  fixes f :: "'a \<Rightarrow> 'b"
  assumes "f ` set ds = f ` set cs - f ` set all" "f c \<in> f ` set all"
  shows "f ` set ds = f ` set (c # cs) - f ` set all"
  using assms by auto

lemma image_diff_take:
  fixes f :: "'a \<Rightarrow> 'b"
  assumes "f ` set ds = f ` set cs - f ` set (all @ [c])" "f c \<notin> f ` set all"
  shows "f ` set (c # ds) = f ` set (c # cs) - f ` set all"
  using assms by auto

lemma distinct_take:
  fixes f :: "'a \<Rightarrow> 'b"
  assumes "f ` set ds = f ` set cs - f ` set (all @ [c])" "distinct (map f ds)"
  shows "distinct (map f (c # ds))"
  using assms by auto

lemma find_key_None:
  fixes f :: "'a \<Rightarrow> 'b"
  shows "(find (\<lambda>e. f e = k) all = None) = (k \<notin> f ` set all)"
  by (induction all) auto

lemma merge_loop_append:
  "\<exists>ds. merge_loop all cs = all @ ds \<and> subseq ds cs \<and> distinct (map keyFile ds) \<and>
     keyFile ` set ds = keyFile ` set cs - keyFile ` set all"
proof (induction cs arbitrary: all)
  case Nil
  show ?case by simp
next
  case (Cons c cs)
  show ?case
  proof (cases "keyFile c \<in> keyFile ` set all")
    case True
    then have m: "merge_loop all (c # cs) = merge_loop all cs"
      by (simp add: find_key_None)
    from Cons.IH [of all] obtain ds where ds: "merge_loop all cs = all @ ds" "subseq ds cs"
      "distinct (map keyFile ds)" "keyFile ` set ds = keyFile ` set cs - keyFile ` set all"
      by blast
    from ds(2) have 2: "subseq ds (c # cs)" by (rule list_emb_Cons)
    from ds(4) True have 4: "keyFile ` set ds = keyFile ` set (c # cs) - keyFile ` set all"
      by (rule image_diff_skip)
    from m ds(1) have 1: "merge_loop all (c # cs) = all @ ds" by simp
    show ?thesis by (rule exI [of _ ds]) (intro conjI 1 2 ds(3) 4)
  next
    case False
    then have m: "merge_loop all (c # cs) = merge_loop (all @ [c]) cs"
      by (simp add: find_key_None)
    from Cons.IH [of "all @ [c]"] obtain ds where ds: "merge_loop (all @ [c]) cs = (all @ [c]) @ ds"
      "subseq ds cs" "distinct (map keyFile ds)"
      "keyFile ` set ds = keyFile ` set cs - keyFile ` set (all @ [c])"
      by blast
    have 1: "merge_loop all (c # cs) = all @ (c # ds)" using m ds(1) by simp
    have 2: "subseq (c # ds) (c # cs)" using ds(2) by simp
    have 3: "distinct (map keyFile (c # ds))" using ds(4,3) by (rule distinct_take)
    have 4: "keyFile ` set (c # ds) = keyFile ` set (c # cs) - keyFile ` set all"
      using ds(4) False by (rule image_diff_take)
    show ?thesis by (rule exI [of _ "c # ds"]) (intro conjI 1 2 3 4)
  qed
qed


lemma pushIdentity_discovered: "set (pushIdentity ch idf) \<subseteq> range discovered"
  by (auto simp: pushIdentity_def)

lemma parse_loop_discovered:
  "set (parse_loop ch idf [] ls) \<subseteq> range discovered"
proof (induction ls arbitrary: ch idf)
  case Nil
  show ?case by (simp add: pushIdentity_discovered)
next
  case (Cons l ls)
  consider (h) "isHostLine (trim l)"
    | (i) "\<not> isHostLine (trim l)" "isIdentityFileLine (trim l) \<and> ch = Some ''github.com''"
    | (o) "\<not> isHostLine (trim l)" "\<not> (isIdentityFileLine (trim l) \<and> ch = Some ''github.com'')"
    by blast
  then show ?case
  proof cases
    case h
    then have "parse_loop ch idf [] (l # ls) =
        pushIdentity ch idf @ parse_loop (secondToken (trim l)) None [] ls"
      using parse_loop_acc [of "secondToken (trim l)" None "pushIdentity ch idf" ls]
      by (simp add: Let_def)
    then show ?thesis
      using Cons.IH [of "secondToken (trim l)" None] pushIdentity_discovered [of ch idf] by simp
  next
    case i
    then have "parse_loop ch idf [] (l # ls) = parse_loop ch (secondToken (trim l)) [] ls"
      by (simp add: Let_def)
    then show ?thesis using Cons.IH [of ch "secondToken (trim l)"] by simp
  next
    case o
    then have "parse_loop ch idf [] (l # ls) = parse_loop ch idf [] ls"
      by (auto simp: Let_def)
    then show ?thesis using Cons.IH [of ch idf] by simp
  qed
qed

lemma discovered_keyFile: "c \<in> range discovered \<Longrightarrow> c = discovered (the (keyFile c))"
  by (auto simp: discovered_def)

lemma parse_discovered:
  assumes "c \<in> set (fst (parseGitHubSSHIdentities file))"
  shows "c = discovered (the (keyFile c))"
proof (cases "file")
  case None
  with assms show ?thesis by (simp add: parseGitHubSSHIdentities_def)
next
  case (Some content)
  with assms have "c \<in> set (parse_loop None None [] (split_lines content))"
    by (simp add: parseGitHubSSHIdentities_def parse_lines_def)
  with parse_loop_discovered [of None None "split_lines content"] have "c \<in> range discovered"
    by blast
  then show ?thesis by (rule discovered_keyFile)
qed

lemma distinct_append_keys:
  fixes f :: "'a \<Rightarrow> 'b"
  assumes "distinct (map f ds)" "f ` set ds = f ` set cs - f ` set ms"
  shows "distinct (map f (ms @ ds)) = distinct (map f ms)"
  using assms by auto

lemma managed_key_is_managed:
  fixes f :: "'a \<Rightarrow> 'b"
  assumes "f ` set ds = f ` set cs - f ` set ms"
  shows "\<forall>r \<in> set (ms @ ds). f r \<in> f ` set ms \<longrightarrow> r \<in> set ms"
  using assms by auto

lemma discovered_only_set:
  fixes f :: "'a \<Rightarrow> 'b"
  assumes sub: "set ds \<subseteq> set cs" and keys: "f ` set ds = f ` set cs - f ` set ms"
    and inj: "inj_on f (set cs)"
  shows "set ds = {d \<in> set cs. f d \<notin> f ` set ms}"
proof (intro equalityI subsetI)
  fix d assume "d \<in> set ds"
  with sub keys show "d \<in> {d \<in> set cs. f d \<notin> f ` set ms}" by auto
next
  fix d assume "d \<in> {d \<in> set cs. f d \<notin> f ` set ms}"
  then have d: "d \<in> set cs" "f d \<notin> f ` set ms" by auto
  with keys have "f d \<in> f ` set ds" by auto
  then obtain e where e: "e \<in> set ds" "f e = f d" by auto
  with sub have "e \<in> set cs" by auto
  with inj d(1) e(2) have "e = d" by (simp add: inj_on_def)
  with e(1) show "d \<in> set ds" by simp
qed

lemma parse_keyFile_inj: "inj_on keyFile (set (fst (parseGitHubSSHIdentities file)))"
proof (rule inj_onI)
  fix c d
  assume c: "c \<in> set (fst (parseGitHubSSHIdentities file))"
    and d: "d \<in> set (fst (parseGitHubSSHIdentities file))" and k: "keyFile c = keyFile d"
  from c have "c = discovered (the (keyFile c))" by (rule parse_discovered)
  moreover from d have "d = discovered (the (keyFile d))" by (rule parse_discovered)
  ultimately show "c = d" using k by simp
qed

section \<open>Properties of the configuration engine\<close>

subsection \<open>What setActiveGitHubIdentity rewrites\<close>

text \<open>
  C1, as the code has it. On an existing document, \<open>setActiveGitHubIdentity k\<close> rewrites as
  four spaces, \<open>IdentityFile\<close> and \<open>k\<close> the first line of the whole document that carries the
  \<open>IdentityFile\<close> keyword inside a block for \<open>github.com\<close> (whichever block for \<open>github.com\<close>
  that is, not only the first one); when the document has no such line, it appends the two
  lines \<open>Host github.com\<close> and four spaces, \<open>IdentityFile\<close>, \<open>k\<close> at the end.
\<close>

theorem setActive_rewrites_first_github_identity:
  "setActiveGitHubIdentity k (Some content) =
     Some (join_lines
       (case targetIndex (split_lines content) of
          Some i \<Rightarrow> (split_lines content)[i := identityLine k]
        | None \<Rightarrow> split_lines content @ [''Host github.com'', identityLine k]))"
  by (simp add: setActiveGitHubIdentity_def setActive_lines_targetIndex split: option.splits)

text \<open>
  The claim as written fails: below, the first block for \<open>github.com\<close> holds no
  \<open>IdentityFile\<close> line, and yet nothing is appended; the line of the second block for
  \<open>github.com\<close> is rewritten.
\<close>

theorem setActive_first_block_counterexample:
  "firstGitHubBlock (split_lines
      (''Host github.com'' @ LF # ''    User git'' @ LF # ''Host gitlab.com'' @ LF #
       ''    IdentityFile /b'' @ LF # ''Host github.com'' @ LF # ''    IdentityFile /a''))
     = Some [''    User git'']
   \<and> find startsIdentityFile [''    User git''] = None
   \<and> setActiveGitHubIdentity ''/k'' (Some
      (''Host github.com'' @ LF # ''    User git'' @ LF # ''Host gitlab.com'' @ LF #
       ''    IdentityFile /b'' @ LF # ''Host github.com'' @ LF # ''    IdentityFile /a''))
     = Some (''Host github.com'' @ LF # ''    User git'' @ LF # ''Host gitlab.com'' @ LF #
       ''    IdentityFile /b'' @ LF # ''Host github.com'' @ LF # ''    IdentityFile /k'')"
  by code_simp

subsection \<open>A missing configuration file\<close>

text \<open>
  C2, as the code has it. When the configuration file does not exist,
  \<open>parseGitHubSSHIdentities\<close> returns no record, \<open>isActiveIdentity\<close> returns false for every
  connection, and \<open>setActiveGitHubIdentity\<close> returns at once (its first statement is the guard
  \<open>if (!fs.existsSync(sshConfigPath)) return\<close>); after each of the three the file is still
  missing: none of them creates it.
\<close>

theorem missing_file_is_never_created:
  "parseGitHubSSHIdentities None = ([], None)
   \<and> isActiveIdentity connection None = (False, None)
   \<and> setActiveGitHubIdentity k None = None"
  by (simp add: parseGitHubSSHIdentities_def isActiveIdentity_def setActiveGitHubIdentity_def)

text \<open>The claim as written fails: \<open>setActiveGitHubIdentity\<close> does not create the file.\<close>

theorem setActive_missing_file_counterexample:
  "setActiveGitHubIdentity ''/home/u/.ssh/id_work'' None = None"
  by (simp add: setActiveGitHubIdentity_def)

subsection \<open>The merged view\<close>

text \<open>
  C3, as the code has it. The merged view is the managed list as it is given, followed by
  records of the scan, in the order of the scan: the discovered records whose key file no
  managed record has, each key file once. A record of the view whose key file occurs in the
  managed list is a managed record. The managed list is copied without a look at its key
  files, so the view has no two records with the same key file exactly when the managed list
  has none.
\<close>

theorem merged_view_dedup:
  "(distinct (map keyFile (getChildren None managed file)) = distinct (map keyFile managed))
   \<and> (\<forall>r \<in> set (getChildren None managed file).
         keyFile r \<in> keyFile ` set managed \<longrightarrow> r \<in> set managed)
   \<and> (\<exists>ds. getChildren None managed file = managed @ ds
         \<and> subseq ds (fst (parseGitHubSSHIdentities file))
         \<and> distinct (map keyFile ds)
         \<and> set ds = {d \<in> set (fst (parseGitHubSSHIdentities file)).
                      keyFile d \<notin> keyFile ` set managed})"
proof -
  let ?disc = "fst (parseGitHubSSHIdentities file)"
  from merge_loop_append [of managed ?disc] obtain ds where
    ds: "merge_loop managed ?disc = managed @ ds" "subseq ds ?disc" "distinct (map keyFile ds)"
      "keyFile ` set ds = keyFile ` set ?disc - keyFile ` set managed"
    by blast
  have g: "getChildren None managed file = managed @ ds"
    using ds(1) by (simp add: getChildren_def)
  from ds(2) have sub: "set ds \<subseteq> set ?disc" by (auto dest: list_emb_set)
  from sub ds(4) parse_keyFile_inj
  have s: "set ds = {d \<in> set ?disc. keyFile d \<notin> keyFile ` set managed}"
    by (rule discovered_only_set)
  from ds(3,4) have 1: "distinct (map keyFile (managed @ ds)) = distinct (map keyFile managed)"
    by (rule distinct_append_keys)
  from ds(4)
  have 2: "\<forall>r \<in> set (managed @ ds). keyFile r \<in> keyFile ` set managed \<longrightarrow> r \<in> set managed"
    by (rule managed_key_is_managed)
  show ?thesis
  proof (intro conjI)
    show "distinct (map keyFile (getChildren None managed file)) = distinct (map keyFile managed)"
      unfolding g by (rule 1)
    show "\<forall>r \<in> set (getChildren None managed file).
        keyFile r \<in> keyFile ` set managed \<longrightarrow> r \<in> set managed"
      unfolding g by (rule 2)
    show "\<exists>ds. getChildren None managed file = managed @ ds
         \<and> subseq ds (fst (parseGitHubSSHIdentities file))
         \<and> distinct (map keyFile ds)
         \<and> set ds = {d \<in> set (fst (parseGitHubSSHIdentities file)).
                      keyFile d \<notin> keyFile ` set managed}"
      by (rule exI [of _ ds]) (intro conjI g ds(2) ds(3) s)
  qed
qed

text \<open>
  The theorem at one managed record whose key file the document names too: the view keeps
  the managed record, has no key file twice, and the managed record is in it.
\<close>

theorem merged_view_dedup_witness:
  "distinct (map keyFile (getChildren None
      [\<lparr>name = ''Work'', host = ''github.com'', user = ''git'', port = Some 22,
        keyFile = Some ''/a'', gitName = Some ''W'', gitEmail = Some ''w@example.com'',
        password = None\<rparr>]
      (Some (''Host github.com'' @ LF # ''    IdentityFile /a'' @ LF #
             ''Host github.com'' @ LF # ''    IdentityFile /b''))))
   \<and> \<lparr>name = ''Work'', host = ''github.com'', user = ''git'', port = Some 22,
        keyFile = Some ''/a'', gitName = Some ''W'', gitEmail = Some ''w@example.com'',
        password = None\<rparr> \<in> set (getChildren None
      [\<lparr>name = ''Work'', host = ''github.com'', user = ''git'', port = Some 22,
        keyFile = Some ''/a'', gitName = Some ''W'', gitEmail = Some ''w@example.com'',
        password = None\<rparr>]
      (Some (''Host github.com'' @ LF # ''    IdentityFile /a'' @ LF #
             ''Host github.com'' @ LF # ''    IdentityFile /b'')))
   \<and> (\<exists>ds. getChildren None
      [\<lparr>name = ''Work'', host = ''github.com'', user = ''git'', port = Some 22,
        keyFile = Some ''/a'', gitName = Some ''W'', gitEmail = Some ''w@example.com'',
        password = None\<rparr>]
      (Some (''Host github.com'' @ LF # ''    IdentityFile /a'' @ LF #
             ''Host github.com'' @ LF # ''    IdentityFile /b'')) =
      [\<lparr>name = ''Work'', host = ''github.com'', user = ''git'', port = Some 22,
        keyFile = Some ''/a'', gitName = Some ''W'', gitEmail = Some ''w@example.com'',
        password = None\<rparr>] @ ds
      \<and> distinct (map keyFile ds))"
proof -
  let ?w = "\<lparr>name = ''Work'', host = ''github.com'', user = ''git'', port = Some 22,
        keyFile = Some ''/a'', gitName = Some ''W'', gitEmail = Some ''w@example.com'',
        password = None\<rparr>"
  let ?f = "Some (''Host github.com'' @ LF # ''    IdentityFile /a'' @ LF #
             ''Host github.com'' @ LF # ''    IdentityFile /b'')"
  note t = merged_view_dedup [of "[?w]" ?f]
  have d: "distinct (map keyFile [?w])" by simp
  from t [THEN conjunct1] d have 1: "distinct (map keyFile (getChildren None [?w] ?f))"
    by (rule iffD2)
  from t [THEN conjunct2, THEN conjunct2]
  obtain ds where ds: "getChildren None [?w] ?f = [?w] @ ds" "distinct (map keyFile ds)"
    by blast
  from ds(1) have 2: "?w \<in> set (getChildren None [?w] ?f)" by simp
  from ds have 3: "\<exists>ds. getChildren None [?w] ?f = [?w] @ ds \<and> distinct (map keyFile ds)"
    by blast
  from 1 2 3 show ?thesis by (intro conjI)
qed

text \<open>
  The claim as written fails: two managed records may name one key file (say, one key used
  under two author names), and both stay in the view.
\<close>

theorem merged_view_dedup_counterexample:
  "\<not> distinct (map keyFile (getChildren None
      [\<lparr>name = ''Work'', host = ''github.com'', user = ''git'', port = Some 22,
        keyFile = Some ''/home/u/.ssh/id_rsa'', gitName = Some ''W'', gitEmail = Some ''w@example.com'',
        password = None\<rparr>,
       \<lparr>name = ''Personal'', host = ''github.com'', user = ''git'', port = Some 22,
        keyFile = Some ''/home/u/.ssh/id_rsa'', gitName = Some ''P'', gitEmail = Some ''p@example.com'',
        password = None\<rparr>] None))"
  by (simp add: getChildren_def parseGitHubSSHIdentities_def)

subsection \<open>When isActiveIdentity answers true\<close>

text \<open>
  C4, as the code has it. \<open>isActiveIdentity\<close> is true exactly when the document has a line that
  carries the \<open>IdentityFile\<close> keyword inside a block for \<open>github.com\<close> (in any such block, not
  only the first one) and the argument of the first such line equals the key file of the
  connection, by equality of strings; it is false when the file is missing and when the
  document has no such line.
\<close>

theorem isActive_first_github_identity:
  "fst (isActiveIdentity connection (Some content)) =
     (case targetIndex (split_lines content) of
        None \<Rightarrow> False
      | Some i \<Rightarrow> argument (split_lines content ! i) = keyFile connection)
   \<and> fst (isActiveIdentity connection None) = False"
  by (simp add: isActiveIdentity_def isActive_loop_findTarget findTarget_targetIndex)

text \<open>
  The claim as written fails: below, the first block for \<open>github.com\<close> holds no
  \<open>IdentityFile\<close> line, and \<open>isActiveIdentity\<close> is true for the key file of the second block
  for \<open>github.com\<close>.
\<close>

theorem isActive_first_block_counterexample:
  "firstGitHubBlock (split_lines
      (''Host github.com'' @ LF # ''    User git'' @ LF # ''Host gitlab.com'' @ LF #
       ''    IdentityFile /b'' @ LF # ''Host github.com'' @ LF # ''    IdentityFile /a''))
     = Some [''    User git'']
   \<and> find startsIdentityFile [''    User git''] = None
   \<and> fst (isActiveIdentity (discovered ''/a'') (Some
      (''Host github.com'' @ LF # ''    User git'' @ LF # ''Host gitlab.com'' @ LF #
       ''    IdentityFile /b'' @ LF # ''Host github.com'' @ LF # ''    IdentityFile /a'')))
     = True"
  by code_simp

subsection \<open>The empty document\<close>

text \<open>
  C5, as the code has it. On the empty document, \<open>setActiveGitHubIdentity\<close> with
  \<open>/home/u/.ssh/id_work\<close> writes an empty first line (the one line of the empty document),
  then \<open>Host github.com\<close>, then four spaces and \<open>IdentityFile /home/u/.ssh/id_work\<close>;
  \<open>parseGitHubSSHIdentities\<close> on that document returns exactly one record, with that key file
  and the name \<open>id_work\<close>.
\<close>

theorem setActive_on_empty_document:
  "setActiveGitHubIdentity ''/home/u/.ssh/id_work'' (Some []) =
     Some (LF # ''Host github.com'' @ LF # ''    IdentityFile /home/u/.ssh/id_work'')
   \<and> fst (parseGitHubSSHIdentities
       (Some (LF # ''Host github.com'' @ LF # ''    IdentityFile /home/u/.ssh/id_work''))) =
     [\<lparr>name = ''id_work'', host = ''github.com'', user = ''git'', port = Some 22,
       keyFile = Some ''/home/u/.ssh/id_work'', gitName = None, gitEmail = None,
       password = None\<rparr>]"
  by code_simp

text \<open>
  The claim as written fails: the document written for the empty document does not start
  with \<open>Host\<close>, and for a missing file no document is written.
\<close>

theorem setActive_on_empty_document_counterexample:
  "setActiveGitHubIdentity ''/home/u/.ssh/id_work'' (Some []) \<noteq>
     Some (''Host github.com'' @ LF # ''    IdentityFile /home/u/.ssh/id_work'')
   \<and> setActiveGitHubIdentity ''/home/u/.ssh/id_work'' None \<noteq>
     Some (''Host github.com'' @ LF # ''    IdentityFile /home/u/.ssh/id_work'')"
  by code_simp

subsection \<open>Several IdentityFile lines in one block\<close>

text \<open>
  C6, as the code has it. Take a block for \<open>github.com\<close> in a document: the lines before it
  are \<open>pre\<close>, its \<open>Host\<close> line is \<open>hl\<close>, its other lines are \<open>body\<close>, and \<open>post\<close>, the rest, is
  empty or starts with a \<open>Host\<close> line. When more than one line of \<open>body\<close> carries the
  \<open>IdentityFile\<close> keyword, the scan returns the records of \<open>pre\<close>, then for the block one
  record whose key file is the argument of the last such line, if that line has an
  argument, and no record for the block if it has none, then the records of \<open>post\<close>.
\<close>

theorem last_identityFile_wins:
  assumes "split_lines content = pre @ hl # body @ post"
    and "githubHost hl" and "\<forall>l\<in>set body. \<not> startsHost l"
    and "post = [] \<or> startsHost (hd post)"
    and "1 < length (filter startsIdentityFile body)"
  shows "fst (parseGitHubSSHIdentities (Some content)) =
    parse_lines pre @
    (case argument (last (filter startsIdentityFile body)) of
       None \<Rightarrow> []
     | Some k \<Rightarrow> [discovered k]) @
    parse_lines post"
proof -
  from assms(5) have ne: "filter startsIdentityFile body \<noteq> []" by auto
  have "parse_lines (pre @ hl # body @ post) =
      parse_lines pre @ pushIdentity (Some ''github.com'') (identityAfter None body) @ parse_lines post"
    using assms(2,3,4) by (rule parse_block)
  then show ?thesis
    using assms(1)
    by (simp add: parseGitHubSSHIdentities_def identityAfter_last [OF ne] pushIdentity_argument)
qed

theorem last_identityFile_wins_witness:
  "fst (parseGitHubSSHIdentities (Some
      (''Host github.com'' @ LF # ''    IdentityFile /a'' @ LF # ''    IdentityFile /b'' @ LF #
       ''Host gitlab.com'' @ LF # ''    IdentityFile /c''))) = [discovered ''/b'']"
proof -
  have s: "split_lines
      (''Host github.com'' @ LF # ''    IdentityFile /a'' @ LF # ''    IdentityFile /b'' @ LF #
       ''Host gitlab.com'' @ LF # ''    IdentityFile /c'') =
      [] @ ''Host github.com'' # [''    IdentityFile /a'', ''    IdentityFile /b''] @
      [''Host gitlab.com'', ''    IdentityFile /c'']"
    by code_simp
  have h: "githubHost ''Host github.com''" by code_simp
  have b: "\<forall>l\<in>set [''    IdentityFile /a'', ''    IdentityFile /b'']. \<not> startsHost l"
    by code_simp
  have p: "[''Host gitlab.com'', ''    IdentityFile /c''] = [] \<or>
      startsHost (hd [''Host gitlab.com'', ''    IdentityFile /c''])"
    by code_simp
  have n: "1 < length (filter startsIdentityFile [''    IdentityFile /a'', ''    IdentityFile /b''])"
    by code_simp
  have e1: "parse_lines [] = []" by code_simp
  have e2: "argument (last (filter startsIdentityFile
      [''    IdentityFile /a'', ''    IdentityFile /b''])) = Some ''/b''"
    by code_simp
  have e3: "parse_lines [''Host gitlab.com'', ''    IdentityFile /c''] = []" by code_simp
  show ?thesis
    using last_identityFile_wins [OF s h b p n] by (simp only: e1 e2 e3 option.case append.simps)
qed

text \<open>
  The claim as written fails: the block below has more than one \<open>IdentityFile\<close> line, its last
  one has the form \<open>IdentityFile=/c\<close>, which has no second piece when it is split at white
  space, and the scan returns no record for the block.
\<close>

theorem last_identityFile_wins_counterexample:
  "fst (parseGitHubSSHIdentities (Some
      (''Host github.com'' @ LF # ''    IdentityFile /a'' @ LF # ''    IdentityFile /b'' @ LF #
       ''    IdentityFile=/c''))) = []"
  by code_simp

subsection \<open>Calling setActiveGitHubIdentity twice\<close>

text \<open>
  C7, as the code has it. When the key file \<open>k\<close> holds no line feed and no line of the
  document ends with a carriage return, \<open>setActiveGitHubIdentity k\<close> called twice leaves the
  document that one call leaves.
\<close>

theorem setActive_twice:
  assumes "LF \<notin> set k" and "\<forall>l\<in>set (split_lines content). \<not> endsWithCR l"
  shows "setActiveGitHubIdentity k (setActiveGitHubIdentity k (Some content)) =
    setActiveGitHubIdentity k (Some content)"
proof -
  have "\<forall>l\<in>set (split_lines content). LF \<notin> set l"
    using split_lines_no_LF_in_lines by blast
  with assms show ?thesis
    by (simp add: setActiveGitHubIdentity_def setActive_lines_stable)
qed

theorem setActive_twice_witness:
  "setActiveGitHubIdentity ''/k''
     (setActiveGitHubIdentity ''/k'' (Some (''Host github.com'' @ LF # ''    IdentityFile /a''))) =
   setActiveGitHubIdentity ''/k'' (Some (''Host github.com'' @ LF # ''    IdentityFile /a''))"
proof -
  have k: "LF \<notin> set ''/k''" by simp
  have c: "\<forall>l\<in>set (split_lines (''Host github.com'' @ LF # ''    IdentityFile /a'')). \<not> endsWithCR l"
    by code_simp
  show ?thesis by (rule setActive_twice [OF k c])
qed

text \<open>
  The claim as written fails twice. A line that ends with a carriage return is written in
  front of a line feed by the first call, and the second call reads the two characters as one
  separator: the carriage return is lost. A key file with a line feed in it is written as
  one line and read back as two, and the second call adds its second part again.
\<close>

theorem setActive_twice_counterexample:
  "setActiveGitHubIdentity ''/k'' (setActiveGitHubIdentity ''/k'' (Some (''# keys'' @ [CR]))) \<noteq>
     setActiveGitHubIdentity ''/k'' (Some (''# keys'' @ [CR]))
   \<and> setActiveGitHubIdentity (''/a'' @ LF # ''/b'')
       (setActiveGitHubIdentity (''/a'' @ LF # ''/b'')
          (Some (''Host github.com'' @ LF # ''    IdentityFile /x''))) \<noteq>
     setActiveGitHubIdentity (''/a'' @ LF # ''/b'')
       (Some (''Host github.com'' @ LF # ''    IdentityFile /x''))"
  by code_simp

subsection \<open>The lines setActiveGitHubIdentity leaves alone\<close>

text \<open>
  C8. On an existing document, \<open>setActiveGitHubIdentity k\<close> writes the lines of the document
  joined by line feeds, where either one line, which carries the \<open>IdentityFile\<close> keyword
  inside a block for \<open>github.com\<close>, has become the new line and every other line is the same at
  the same place, or all lines are the same and the two lines of a new block follow them.
\<close>

theorem setActive_preserves_other_lines:
  "\<exists>lines'. setActiveGitHubIdentity k (Some content) = Some (join_lines lines') \<and>
     ((\<exists>i. githubIdentityAt (split_lines content) i \<and>
           length lines' = length (split_lines content) \<and>
           lines' ! i = identityLine k \<and>
           (\<forall>j < length (split_lines content). j \<noteq> i \<longrightarrow> lines' ! j = split_lines content ! j))
      \<or> lines' = split_lines content @ [''Host github.com'', identityLine k])"
proof (cases "targetIndex (split_lines content)")
  case None
  then have "setActiveGitHubIdentity k (Some content) =
      Some (join_lines (split_lines content @ [''Host github.com'', identityLine k]))"
    by (simp add: setActiveGitHubIdentity_def setActive_lines_targetIndex)
  then show ?thesis by blast
next
  case (Some i)
  then have g: "githubIdentityAt (split_lines content) i" by (rule targetIndex_Some)
  then have "i < length (split_lines content)" by (simp add: githubIdentityAt_def)
  with g have "githubIdentityAt (split_lines content) i \<and>
      length ((split_lines content)[i := identityLine k]) = length (split_lines content) \<and>
      (split_lines content)[i := identityLine k] ! i = identityLine k \<and>
      (\<forall>j < length (split_lines content). j \<noteq> i \<longrightarrow>
         (split_lines content)[i := identityLine k] ! j = split_lines content ! j)"
    by simp
  moreover have "setActiveGitHubIdentity k (Some content) =
      Some (join_lines ((split_lines content)[i := identityLine k]))"
    using Some by (simp add: setActiveGitHubIdentity_def setActive_lines_targetIndex)
  ultimately show ?thesis by blast
qed

theorem setActive_preserves_other_lines_witness:
  "\<exists>lines'. setActiveGitHubIdentity ''/k'' (Some
       (''Host github.com'' @ LF # ''    IdentityFile /a'' @ LF # ''Host gitlab.com'' @ LF #
        ''    IdentityFile /b'')) = Some (join_lines lines') \<and>
     ((\<exists>i. githubIdentityAt (split_lines
            (''Host github.com'' @ LF # ''    IdentityFile /a'' @ LF # ''Host gitlab.com'' @ LF #
             ''    IdentityFile /b'')) i \<and>
           length lines' = length (split_lines
            (''Host github.com'' @ LF # ''    IdentityFile /a'' @ LF # ''Host gitlab.com'' @ LF #
             ''    IdentityFile /b'')) \<and>
           lines' ! i = identityLine ''/k'' \<and>
           (\<forall>j < length (split_lines
            (''Host github.com'' @ LF # ''    IdentityFile /a'' @ LF # ''Host gitlab.com'' @ LF #
             ''    IdentityFile /b'')). j \<noteq> i \<longrightarrow> lines' ! j = split_lines
            (''Host github.com'' @ LF # ''    IdentityFile /a'' @ LF # ''Host gitlab.com'' @ LF #
             ''    IdentityFile /b'') ! j))
      \<or> lines' = split_lines
            (''Host github.com'' @ LF # ''    IdentityFile /a'' @ LF # ''Host gitlab.com'' @ LF #
             ''    IdentityFile /b'') @ [''Host github.com'', identityLine ''/k''])"
  by (rule setActive_preserves_other_lines)

subsection \<open>The block at the end of the document\<close>

text \<open>
  C9, as the code has it. Take a document that ends with a block for \<open>github.com\<close>: the
  lines before it are \<open>pre\<close>, its \<open>Host\<close> line is \<open>hl\<close>, and its other lines, \<open>body\<close>, hold a
  line with the \<open>IdentityFile\<close> keyword. The scan returns the records of \<open>pre\<close> and then, for
  the block, one record whose key file is the argument of the last such line of \<open>body\<close>, if
  that line has an argument, and no record if it has none. A \<open>Host\<close> line put after the block
  changes nothing: the push after the loop does what the push at a \<open>Host\<close> line does.
\<close>

theorem trailing_block_flushed:
  assumes "split_lines content = pre @ hl # body"
    and "githubHost hl" and "\<forall>l\<in>set body. \<not> startsHost l"
    and "filter startsIdentityFile body \<noteq> []"
  shows "fst (parseGitHubSSHIdentities (Some content)) =
      parse_lines pre @
      (case argument (last (filter startsIdentityFile body)) of
         None \<Rightarrow> []
       | Some k \<Rightarrow> [discovered k])
    \<and> (startsHost nextHost \<longrightarrow>
         parse_lines (pre @ hl # body @ [nextHost]) = parse_lines (pre @ hl # body))"
proof -
  have e: "parse_lines [] = []" by (simp add: parse_lines_def pushIdentity_def)
  have 1: "parse_lines (pre @ hl # body @ []) =
      parse_lines pre @ pushIdentity (Some ''github.com'') (identityAfter None body) @ parse_lines []"
    using assms(2,3) by (rule parse_block) simp
  have 2: "parse_lines (pre @ hl # body @ [nextHost]) =
      parse_lines pre @ pushIdentity (Some ''github.com'') (identityAfter None body) @
      parse_lines [nextHost]" if "startsHost nextHost"
    using assms(2,3) by (rule parse_block) (simp add: that)
  have 3: "parse_lines [nextHost] = []" if "startsHost nextHost"
    using that by (simp add: parse_lines_def pushIdentity_def startsHost_def truthy_def Let_def)
  from 1 2 3 e assms(1) show ?thesis
    by (simp add: parseGitHubSSHIdentities_def identityAfter_last [OF assms(4)] pushIdentity_argument)
qed

theorem trailing_block_flushed_witness:
  "fst (parseGitHubSSHIdentities (Some
      (''Host gitlab.com'' @ LF # ''    IdentityFile /c'' @ LF #
       ''Host github.com'' @ LF # ''    IdentityFile /a''))) = [discovered ''/a'']
   \<and> parse_lines ([''Host gitlab.com'', ''    IdentityFile /c''] @ ''Host github.com'' #
        [''    IdentityFile /a''] @ [''Host example.org'']) =
     parse_lines ([''Host gitlab.com'', ''    IdentityFile /c''] @ ''Host github.com'' #
        [''    IdentityFile /a''])"
proof -
  have s: "split_lines
      (''Host gitlab.com'' @ LF # ''    IdentityFile /c'' @ LF #
       ''Host github.com'' @ LF # ''    IdentityFile /a'') =
      [''Host gitlab.com'', ''    IdentityFile /c''] @ ''Host github.com'' # [''    IdentityFile /a'']"
    by code_simp
  have h: "githubHost ''Host github.com''" by code_simp
  have b: "\<forall>l\<in>set [''    IdentityFile /a'']. \<not> startsHost l" by code_simp
  have n: "filter startsIdentityFile [''    IdentityFile /a''] \<noteq> []" by code_simp
  have x: "startsHost ''Host example.org''" by code_simp
  have e1: "parse_lines [''Host gitlab.com'', ''    IdentityFile /c''] = []" by code_simp
  have e2: "argument (last (filter startsIdentityFile [''    IdentityFile /a''])) = Some ''/a''"
    by code_simp
  note t = trailing_block_flushed [OF s h b n, of "''Host example.org''"]
  from t [THEN conjunct1]
  have 1: "fst (parseGitHubSSHIdentities (Some
      (''Host gitlab.com'' @ LF # ''    IdentityFile /c'' @ LF #
       ''Host github.com'' @ LF # ''    IdentityFile /a''))) = [discovered ''/a'']"
    by (simp only: e1 e2 option.case append.simps)
  from t [THEN conjunct2, THEN mp, OF x] 1 show ?thesis by (rule conjI [rotated])
qed

text \<open>
  The claim as written fails: the last block below is a block for \<open>github.com\<close> with an
  \<open>IdentityFile\<close> line, no \<open>Host\<close> line follows it, and the scan returns no record: the last
  line with the keyword, \<open>IdentityFile=/b\<close>, has no second piece when it is split at white
  space.
\<close>

theorem trailing_block_flushed_counterexample:
  "fst (parseGitHubSSHIdentities (Some
      (''Host github.com'' @ LF # ''    IdentityFile /a'' @ LF # ''    IdentityFile=/b''))) = []"
  by code_simp

subsection \<open>Lines before the first Host line\<close>

text \<open>
  C10. When the lines of a document are \<open>pre\<close> followed by \<open>rest\<close> and no line of \<open>pre\<close> is a
  \<open>Host\<close> line, the three operations do what they do on \<open>rest\<close> alone:
  \<open>parseGitHubSSHIdentities\<close> returns the records of \<open>rest\<close>, \<open>isActiveIdentity\<close> gives the
  answer of its loop on \<open>rest\<close>, and \<open>setActiveGitHubIdentity\<close> writes \<open>pre\<close> as it is, followed
  by what it makes of \<open>rest\<close>. So an \<open>IdentityFile\<close> line in \<open>pre\<close> is never a record, is never
  compared, and is never rewritten.
\<close>

theorem identityFile_before_first_host_inert:
  assumes "split_lines content = pre @ rest" and "\<forall>l\<in>set pre. \<not> startsHost l"
  shows "fst (parseGitHubSSHIdentities (Some content)) = parse_lines rest
    \<and> fst (isActiveIdentity connection (Some content)) = isActive_loop (keyFile connection) False rest
    \<and> setActiveGitHubIdentity k (Some content) = Some (join_lines (pre @ setActive_lines k rest))"
  using assms
  by (simp add: parseGitHubSSHIdentities_def isActiveIdentity_def setActiveGitHubIdentity_def
      parse_lines_def parse_loop_no_host isActive_loop_no_host setActive_lines_no_host)

theorem identityFile_before_first_host_inert_witness:
  "fst (parseGitHubSSHIdentities (Some
      (''IdentityFile /early'' @ LF # ''Host github.com'' @ LF # ''    IdentityFile /a''))) =
     parse_lines [''Host github.com'', ''    IdentityFile /a'']
   \<and> fst (isActiveIdentity (discovered ''/early'') (Some
      (''IdentityFile /early'' @ LF # ''Host github.com'' @ LF # ''    IdentityFile /a''))) =
     isActive_loop (keyFile (discovered ''/early'')) False [''Host github.com'', ''    IdentityFile /a'']
   \<and> setActiveGitHubIdentity ''/k'' (Some
      (''IdentityFile /early'' @ LF # ''Host github.com'' @ LF # ''    IdentityFile /a'')) =
     Some (join_lines ([''IdentityFile /early''] @
       setActive_lines ''/k'' [''Host github.com'', ''    IdentityFile /a'']))"
proof -
  have s: "split_lines (''IdentityFile /early'' @ LF # ''Host github.com'' @ LF # ''    IdentityFile /a'')
      = [''IdentityFile /early''] @ [''Host github.com'', ''    IdentityFile /a'']"
    by code_simp
  have h: "\<forall>l\<in>set [''IdentityFile /early'']. \<not> startsHost l"
    by code_simp
  show ?thesis
    by (rule identityFile_before_first_host_inert [OF s h])
qed

end
